theory Spec2Isabelle
  imports Main "HOL-Library.Sublist"
begin

section \<open>Python values used by precondition.py\<close>

text \<open>
  Texts are Python \<open>str\<close> values. They are modelled as \<^typ>\<open>string\<close>, one \<^typ>\<open>char\<close>
  per code point, so the model covers the texts whose code points are below 256; the
  character classes below are CPython's for that range. Python integers are \<^typ>\<open>int\<close>.
  Every \<open>raise\<close> of the module and of the built-ins it calls is a value of \<open>error\<close>.
\<close>

datatype error = ValueError | IndexError | ZeroDivisionError | Exception string

text \<open>\<open>\w\<close> of the \<open>re\<close> module on a \<open>str\<close> pattern: alphanumeric code points and the underscore.\<close>

definition is_word_char :: "char \<Rightarrow> bool" where
  "is_word_char c =
     (let n = (of_char c :: nat)
      in (48 \<le> n \<and> n \<le> 57) \<or> (65 \<le> n \<and> n \<le> 90) \<or> n = 95 \<or> (97 \<le> n \<and> n \<le> 122)
         \<or> n = 170 \<or> n = 178 \<or> n = 179 \<or> n = 181 \<or> n = 185 \<or> n = 186
         \<or> (188 \<le> n \<and> n \<le> 190) \<or> (192 \<le> n \<and> n \<le> 214) \<or> (216 \<le> n \<and> n \<le> 246)
         \<or> 248 \<le> n)"

text \<open>\<open>\s\<close> of the \<open>re\<close> module on a \<open>str\<close> pattern.\<close>

definition is_space_char :: "char \<Rightarrow> bool" where
  "is_space_char c =
     (let n = (of_char c :: nat)
      in (9 \<le> n \<and> n \<le> 13) \<or> (28 \<le> n \<and> n \<le> 32) \<or> n = 133 \<or> n = 160)"

text \<open>The white space that \<open>int()\<close> skips at both ends of its argument.\<close>

definition is_int_space :: "char \<Rightarrow> bool" where
  "is_int_space c =
     (let n = (of_char c :: nat)
      in (9 \<le> n \<and> n \<le> 13) \<or> n = 32 \<or> n = 133 \<or> n = 160)"

definition is_digit :: "char \<Rightarrow> bool" where
  "is_digit c = (let n = (of_char c :: nat) in 48 \<le> n \<and> n \<le> 57)"

definition digit_val :: "char \<Rightarrow> int" where
  "digit_val c = int (of_char c) - 48"

definition digit_char :: "nat \<Rightarrow> char" where
  "digit_char d = char_of (48 + d)"

subsection \<open>\<open>str(n)\<close> and \<open>int(s)\<close>\<close>

fun nat_digits :: "nat \<Rightarrow> string" where
  "nat_digits n = (if n < 10 then [digit_char n] else nat_digits (n div 10) @ [digit_char (n mod 10)])"

declare nat_digits.simps [simp del]

definition py_str :: "int \<Rightarrow> string" where
  "py_str i = (if i < 0 then CHR ''-'' # nat_digits (nat (- i)) else nat_digits (nat i))"

text \<open>
  Both conversions are those of Python's unbounded integers; the limit that an interpreter
  may put on the number of digits of a conversion is not modelled.

  The digits of \<open>int()\<close>'s argument, most significant first. A single underscore may
  stand between two digits. \<open>None\<close> is the \<open>ValueError\<close> of a malformed literal.
\<close>

fun digits_acc :: "int \<Rightarrow> string \<Rightarrow> int option" where
  "digits_acc a [] = Some a"
| "digits_acc a (c # cs) =
     (if is_digit c then digits_acc (10 * a + digit_val c) cs
      else if c = CHR ''_'' \<and> cs \<noteq> [] \<and> is_digit (hd cs) then digits_acc a cs
      else None)"

definition digits_value :: "string \<Rightarrow> int option" where
  "digits_value s = (case s of [] \<Rightarrow> None | c # cs \<Rightarrow> if is_digit c then digits_acc 0 s else None)"

definition int_strip :: "string \<Rightarrow> string" where
  "int_strip s = rev (dropWhile is_int_space (rev (dropWhile is_int_space s)))"

definition py_int :: "string \<Rightarrow> int option" where
  "py_int s =
     (case int_strip s of
        [] \<Rightarrow> None
      | c # cs \<Rightarrow>
          if c = CHR ''-'' then map_option uminus (digits_value cs)
          else if c = CHR ''+'' then digits_value cs
          else digits_value (c # cs))"

subsection \<open>\<open>str.split\<close>, \<open>str.rsplit\<close>, \<open>str.join\<close>\<close>

text \<open>
  \<open>text.split(sep)\<close> cuts at the occurrences of \<open>sep\<close> found from the left, none
  overlapping another. The module passes non-empty literal separators only.
\<close>

fun split_acc :: "string \<Rightarrow> string \<Rightarrow> string \<Rightarrow> string list" where
  "split_acc sep acc [] = [rev acc]"
| "split_acc sep acc (x # xs) =
     (if sep \<noteq> [] \<and> prefix sep (x # xs)
      then rev acc # split_acc sep [] (drop (length sep - 1) xs)
      else split_acc sep (x # acc) xs)"

definition py_split :: "string \<Rightarrow> string \<Rightarrow> string list" where
  "py_split sep text = split_acc sep [] text"

text \<open>
  \<open>text.rsplit(sep)\<close> with no \<open>maxsplit\<close> cuts at every occurrence found from the
  right: the mirror image of \<open>split\<close>.
\<close>

definition py_rsplit :: "string \<Rightarrow> string \<Rightarrow> string list" where
  "py_rsplit sep text = rev (map rev (split_acc (rev sep) [] (rev text)))"

text \<open>\<open>value.split(':', 1)\<close>: one cut, at the first colon.\<close>

definition split_colon1 :: "string \<Rightarrow> string list" where
  "split_colon1 v =
     (if CHR '':'' \<in> set v
      then [takeWhile (\<lambda>c. c \<noteq> CHR '':'') v, tl (dropWhile (\<lambda>c. c \<noteq> CHR '':'') v)]
      else [v])"

fun py_join :: "string \<Rightarrow> string list \<Rightarrow> string" where
  "py_join sep [] = []"
| "py_join sep [x] = x"
| "py_join sep (x # y # ys) = x @ sep @ py_join sep (y # ys)"

subsection \<open>\<open>re.subn\<close> and \<open>re.findall\<close>\<close>

text \<open>
  A pattern is given by its matcher at the start of a text: the length of the match and
  the text of its group 1. Both functions scan from the left, and after a match they go
  on behind it. Every pattern of the module consumes at least one character.
\<close>

type_synonym matcher = "string \<Rightarrow> (nat \<times> string) option"

fun re_subn :: "matcher \<Rightarrow> (string \<Rightarrow> string) \<Rightarrow> string \<Rightarrow> string \<times> nat" where
  "re_subn m repl [] = ([], 0)"
| "re_subn m repl (x # xs) =
     (case m (x # xs) of
        Some (n, g) \<Rightarrow>
          (case re_subn m repl (drop (n - 1) xs) of (out, count) \<Rightarrow> (repl g @ out, Suc count))
      | None \<Rightarrow>
          (case re_subn m repl xs of (out, count) \<Rightarrow> (x # out, count)))"

fun re_findall :: "matcher \<Rightarrow> string \<Rightarrow> string list" where
  "re_findall m [] = []"
| "re_findall m (x # xs) =
     (case m (x # xs) of
        Some (n, g) \<Rightarrow> g # re_findall m (drop (n - 1) xs)
      | None \<Rightarrow> re_findall m xs)"

text \<open>
  The number of occurrences of a pattern in a text, as the claims count them: the positions
  of the text at which the pattern matches.
\<close>

fun occurrences :: "matcher \<Rightarrow> string \<Rightarrow> nat" where
  "occurrences m [] = 0"
| "occurrences m (x # xs) = (if m (x # xs) = None then 0 else 1) + occurrences m xs"

section \<open>The line-number codec\<close>

definition LINE_SEP :: string where
  "LINE_SEP = ''_LINE_''"

definition extract_line_number :: "string \<Rightarrow> error + (string \<times> int option)" where
  "extract_line_number text =
     (let parts = py_rsplit LINE_SEP text
      in if length parts = 1 then Inr (text, None)
         else (case py_int (parts ! 1) of
                 None \<Rightarrow> Inl ValueError
               | Some n \<Rightarrow> Inr (parts ! 0, Some n)))"

section \<open>The prefix allocator\<close>

definition DEFAULT_PREFIX_LENGTH :: nat where
  "DEFAULT_PREFIX_LENGTH = 3"

definition DEFAULT_ALPHABET :: string where
  "DEFAULT_ALPHABET = ''abcdefghijklmnopqrstuvwxyz''"

text \<open>The pattern \<open>(\w{L}):\<close> at the start of a text.\<close>

definition prefix_token_match :: "nat \<Rightarrow> matcher" where
  "prefix_token_match L xs =
     (if L < length xs \<and> list_all is_word_char (take L xs) \<and> xs ! L = CHR '':''
      then Some (L + 1, take L xs) else None)"

text \<open>
  The \<open>while count:\<close> loop of \<open>PrefixGenerator.__iter__\<close>. A store \<open>digits[position]\<close>
  with a negative position counts from the end, and raises outside the list.
\<close>

function digits_loop :: "nat \<Rightarrow> nat \<Rightarrow> int \<Rightarrow> nat list \<Rightarrow> error + nat list" where
  "digits_loop N count position digits =
     (if count = 0 then Inr digits
      else if N = 0 then Inl ZeroDivisionError
      else if position - 1 < - int (length digits) \<or> int (length digits) \<le> position - 1
      then Inl IndexError
      else digits_loop N (count div N) (position - 1)
             (digits[nat (if position - 1 < 0 then position - 1 + int (length digits)
                          else position - 1) := count mod N]))"
  by pat_completeness auto
termination
  by (relation "measure (\<lambda>(N, count, position, digits). nat (position + int (length digits)))") auto

declare digits_loop.simps [simp del]

text \<open>The string yielded for one value of \<open>count\<close>.\<close>

definition alphabet_at :: "string \<Rightarrow> nat \<Rightarrow> error + char" where
  "alphabet_at alphabet c = (if c < length alphabet then Inr (alphabet ! c) else Inl IndexError)"

fun join_chars :: "string \<Rightarrow> nat list \<Rightarrow> error + string" where
  "join_chars alphabet [] = Inr []"
| "join_chars alphabet (c # cs) =
     (case alphabet_at alphabet c of
        Inl e \<Rightarrow> Inl e
      | Inr ch \<Rightarrow> (case join_chars alphabet cs of Inl e \<Rightarrow> Inl e | Inr s \<Rightarrow> Inr (ch # s)))"

definition prefix_of_count :: "nat \<Rightarrow> string \<Rightarrow> nat \<Rightarrow> error + string" where
  "prefix_of_count prefix_length alphabet count =
     (case digits_loop (length alphabet) count (int prefix_length) (replicate prefix_length 0) of
        Inl e \<Rightarrow> Inl e
      | Inr digits \<Rightarrow> join_chars alphabet digits)"

text \<open>
  The \<open>for prefix in PrefixGenerator(...)\<close> loop of \<open>autogenerate_empty_prefix\<close>, from
  \<open>count\<close> on, and the statement behind the loop.
\<close>

function prefix_search :: "nat \<Rightarrow> string \<Rightarrow> string set \<Rightarrow> nat \<Rightarrow> error + string" where
  "prefix_search prefix_length alphabet taken count =
     (if length alphabet ^ prefix_length \<le> count then Inl (Exception ''This cannot happen'')
      else (case prefix_of_count prefix_length alphabet count of
              Inl e \<Rightarrow> Inl e
            | Inr p \<Rightarrow> if p \<notin> taken then Inr p
                       else prefix_search prefix_length alphabet taken (Suc count)))"
  by pat_completeness auto
termination
  by (relation "measure (\<lambda>(prefix_length, alphabet, taken, count).
                  length alphabet ^ prefix_length - count)") auto

declare prefix_search.simps [simp del]

definition autogenerate_empty_prefix :: "string \<Rightarrow> nat \<Rightarrow> string \<Rightarrow> error + string" where
  "autogenerate_empty_prefix text prefix_length alphabet =
     (let non_candidate_prefix_strings = set (re_findall (prefix_token_match prefix_length) text)
      in if card non_candidate_prefix_strings = length alphabet
         then Inl (Exception ''Could not find unused prefix sequence!'')
         else prefix_search prefix_length alphabet non_candidate_prefix_strings 0)"

section \<open>The text rewriter\<close>

text \<open>The pattern \<open>"":(\s*"(?:http|https|file)://)\<close> at the start of a text.\<close>

definition empty_context_match :: matcher where
  \<open>empty_context_match xs =
     (if prefix ''"":'' xs then
        (let ws = takeWhile is_space_char (drop 3 xs);
             rest = dropWhile is_space_char (drop 3 xs)
         in if prefix ''"http://'' rest then Some (3 + length ws + 8, ws @ ''"http://'')
            else if prefix ''"https://'' rest then Some (3 + length ws + 9, ws @ ''"https://'')
            else if prefix ''"file://'' rest then Some (3 + length ws + 8, ws @ ''"file://'')
            else None)
      else None)\<close>

text \<open>The pattern \<open>":([\w-]+)"\<close> at the start of a text.\<close>

definition is_iri_char :: "char \<Rightarrow> bool" where
  "is_iri_char c = (is_word_char c \<or> c = CHR ''-'')"

definition empty_iri_match :: matcher where
  \<open>empty_iri_match xs =
     (if prefix ''":'' xs then
        (let w = takeWhile is_iri_char (drop 2 xs);
             rest = dropWhile is_iri_char (drop 2 xs)
         in if w \<noteq> [] \<and> prefix ''"'' rest then Some (2 + length w + 1, w) else None)
      else None)\<close>

definition replace_empty_prefix :: "string \<Rightarrow> string \<Rightarrow> error + string" where
  \<open>replace_empty_prefix text empty_prefix =
     (case re_subn empty_context_match (\<lambda>g. ''"'' @ empty_prefix @ ''":'' @ g) text of
        (text1, count) \<Rightarrow>
          if count = 0 then Inr text1
          else if 1 < count
          then Inl (Exception ''Found multiple tokens that look like empty-string contexts'')
          else (case re_subn empty_iri_match (\<lambda>g. ''"'' @ empty_prefix @ '':'' @ g @ ''"'') text1 of
                  (text2, count2) \<Rightarrow> Inr text2))\<close>

text \<open>
  \<open>type_matcher.match(line)\<close> for the pattern \<open>( *"@type": *")([\w:#/-]+)(",)\<close>: the
  three groups of a match at the start of the line.
\<close>

definition is_type_char :: "char \<Rightarrow> bool" where
  "is_type_char c =
     (is_word_char c \<or> c = CHR '':'' \<or> c = CHR ''#'' \<or> c = CHR ''/'' \<or> c = CHR ''-'')"

definition is_blank :: "char \<Rightarrow> bool" where
  "is_blank c = (c = CHR '' '')"

definition type_matcher :: "string \<Rightarrow> (string \<times> string \<times> string) option" where
  \<open>type_matcher line =
     (let sp1 = takeWhile is_blank line;
          r1 = dropWhile is_blank line
      in if prefix ''"@type":'' r1 then
           (let sp2 = takeWhile is_blank (drop 8 r1);
                r2 = dropWhile is_blank (drop 8 r1)
            in if prefix ''"'' r2 then
                 (let v = takeWhile is_type_char (drop 1 r2);
                      r3 = dropWhile is_type_char (drop 1 r2)
                  in if v \<noteq> [] \<and> prefix ''",'' r3
                     then Some (sp1 @ ''"@type":'' @ sp2 @ ''"'', v, ''",'')
                     else None)
               else None)
         else None)\<close>

text \<open>
  The loop over \<open>enumerate(lines)\<close>: \<open>line_number\<close> is the index of the first line of the
  list, counted from 0.
\<close>

fun embed_lines :: "nat \<Rightarrow> string list \<Rightarrow> string list" where
  "embed_lines line_number [] = []"
| "embed_lines line_number (line # lines) =
     (case type_matcher line of
        Some (g1, g2, g3) \<Rightarrow> g1 @ g2 @ ''_LINE_'' @ py_str (int line_number + 1) @ g3
      | None \<Rightarrow> line)
     # embed_lines (Suc line_number) lines"

definition embed_line_numbers :: "string \<Rightarrow> string" where
  "embed_line_numbers text = py_join ''\<newline>'' (embed_lines 0 (py_split ''\<newline>'' text))"

definition precondition :: "string \<Rightarrow> string option \<Rightarrow> error + string" where
  "precondition text prefix_opt =
     (case (case prefix_opt of
              None \<Rightarrow> autogenerate_empty_prefix text DEFAULT_PREFIX_LENGTH DEFAULT_ALPHABET
            | Some p \<Rightarrow> Inr p) of
        Inl e \<Rightarrow> Inl e
      | Inr p \<Rightarrow>
          (case replace_empty_prefix text p of
             Inl e \<Rightarrow> Inl e
           | Inr text1 \<Rightarrow> Inr (embed_line_numbers text1)))"

section \<open>The graph normalizer\<close>

text \<open>
  The terms of rdflib: a reference, a blank node, or a literal with its lexical form, its
  language tag and its datatype. A graph is given by the list of its triples in the order
  in which \<open>graph.triples((None, None, None))\<close> yields them; the new graph is the list of
  the triples added, in that order.

  rdflib itself is not part of the module. Its constructor \<open>Literal(text, datatype=dt)\<close>
  makes a literal with the datatype \<open>dt\<close> and no language tag; the lexical form it keeps
  is the text it is given, unless rdflib normalises texts of that datatype (\<open>007\<close> of an
  integer datatype becomes \<open>7\<close>). That form is the parameter \<open>lexical\<close> of the functions
  below: \<open>lexical text dt\<close> is the text of the new literal.
\<close>

datatype node = URIRef string | BNode string | Literal string "string option" "string option"

type_synonym triple = "node \<times> node \<times> node"

type_synonym line_table = "node \<Rightarrow> int option"

text \<open>\<open>if number:\<close> holds for an integer other than 0, and fails for \<open>None\<close> and for 0.\<close>

definition truthy :: "int option \<Rightarrow> bool" where
  "truthy number = (case number of None \<Rightarrow> False | Some n \<Rightarrow> n \<noteq> 0)"

text \<open>First \<open>if\<close> of the loop body: a literal whose datatype is neither \<open>None\<close> nor empty.\<close>

definition strip_datatype ::
  "(string \<Rightarrow> string \<Rightarrow> string) \<Rightarrow> node \<Rightarrow> node \<Rightarrow> line_table
     \<Rightarrow> error + (node \<times> line_table)" where
  "strip_datatype lexical subject obj line_numbers =
     (case obj of
        Literal v lang (Some dt) \<Rightarrow>
          if dt \<noteq> [] then
            (case extract_line_number dt of
               Inl e \<Rightarrow> Inl e
             | Inr (stripped_string, number) \<Rightarrow>
                 if truthy number
                 then Inr (Literal (lexical v stripped_string) None (Some stripped_string),
                           line_numbers(subject := number))
                 else Inr (obj, line_numbers))
          else Inr (obj, line_numbers)
      | _ \<Rightarrow> Inr (obj, line_numbers))"

text \<open>Second \<open>if\<close>: a literal with no datatype whose text starts with a prefix of the context.\<close>

definition expand_prefix :: "(string \<Rightarrow> string option) \<Rightarrow> node \<Rightarrow> node" where
  "expand_prefix context obj =
     (case obj of
        Literal v lang dt \<Rightarrow>
          if dt = None \<or> dt = Some [] then
            (let parts = split_colon1 v
             in if 1 < length parts then
                  (case context (parts ! 0) of
                     Some expansion \<Rightarrow> URIRef (expansion @ parts ! 1)
                   | None \<Rightarrow> obj)
                else obj)
          else obj
      | _ \<Rightarrow> obj)"

text \<open>Third \<open>if\<close>: a reference, also one that the second \<open>if\<close> has just made.\<close>

definition strip_uriref :: "node \<Rightarrow> node \<Rightarrow> line_table \<Rightarrow> error + (node \<times> line_table)" where
  "strip_uriref subject obj line_numbers =
     (case obj of
        URIRef u \<Rightarrow>
          (case extract_line_number u of
             Inl e \<Rightarrow> Inl e
           | Inr (stripped_string, number) \<Rightarrow>
               if truthy number
               then Inr (URIRef stripped_string, line_numbers(subject := number))
               else Inr (obj, line_numbers))
      | _ \<Rightarrow> Inr (obj, line_numbers))"

definition normalize_object ::
  "(string \<Rightarrow> string \<Rightarrow> string) \<Rightarrow> (string \<Rightarrow> string option) \<Rightarrow> node \<Rightarrow> node \<Rightarrow> line_table
     \<Rightarrow> error + (node \<times> line_table)" where
  "normalize_object lexical context subject obj line_numbers =
     (case strip_datatype lexical subject obj line_numbers of
        Inl e \<Rightarrow> Inl e
      | Inr (obj1, line_numbers1) \<Rightarrow> strip_uriref subject (expand_prefix context obj1) line_numbers1)"

fun triples_loop ::
  "(string \<Rightarrow> string \<Rightarrow> string) \<Rightarrow> (string \<Rightarrow> string option) \<Rightarrow> triple list \<Rightarrow> triple list
     \<Rightarrow> line_table \<Rightarrow> error + (triple list \<times> line_table)" where
  "triples_loop lexical context [] new_graph line_numbers = Inr (new_graph, line_numbers)"
| "triples_loop lexical context ((subject, predicate, obj) # rest) new_graph line_numbers =
     (case normalize_object lexical context subject obj line_numbers of
        Inl e \<Rightarrow> Inl e
      | Inr (obj', line_numbers') \<Rightarrow>
          triples_loop lexical context rest (new_graph @ [(subject, predicate, obj')])
            line_numbers')"

definition postcondition ::
  "(string \<Rightarrow> string \<Rightarrow> string) \<Rightarrow> triple list \<Rightarrow> (string \<Rightarrow> string option)
     \<Rightarrow> error + (triple list \<times> line_table)" where
  "postcondition lexical graph context = triples_loop lexical context graph [] Map.empty"


section \<open>The line-number codec: properties\<close>

text \<open>
  C1. \<open>extract_line_number\<close> on a text with two separators: \<open>rsplit\<close> has no
  \<open>maxsplit\<close>, so the text is cut at both, and the function returns the part before the
  first separator with the number between the two, not the part before the last separator
  with the number behind it.
\<close>

theorem extract_line_number_two_separators:
  "extract_line_number ''a_LINE_1_LINE_2'' = Inr (''a'', Some 1)"
  by (simp add: extract_line_number_def py_rsplit_def LINE_SEP_def py_int_def int_strip_def
      is_int_space_def digits_value_def is_digit_def digit_val_def)

subsection \<open>Decoding an encoded value\<close>

lemma digit_char_is_digit: "d < 10 \<Longrightarrow> is_digit (digit_char d)"
  by (simp add: is_digit_def digit_char_def)

lemma digit_val_digit_char: "d < 10 \<Longrightarrow> digit_val (digit_char d) = int d"
  by (simp add: digit_val_def digit_char_def)

lemma nat_digits_all_digits: "list_all is_digit (nat_digits n)"
proof (induction n rule: nat_digits.induct)
  case (1 n)
  show ?case
  proof (cases "n < 10")
    case True
    then show ?thesis by (subst nat_digits.simps) (simp add: digit_char_is_digit)
  next
    case False
    with 1 show ?thesis by (subst nat_digits.simps) (simp add: digit_char_is_digit)
  qed
qed

lemma nat_digits_nonempty: "nat_digits n \<noteq> []"
  by (subst nat_digits.simps) simp

lemma digits_acc_append:
  "list_all is_digit ds \<Longrightarrow>
   digits_acc a (ds @ cs) = digits_acc (foldl (\<lambda>a c. 10 * a + digit_val c) a ds) cs"
  by (induction ds arbitrary: a) simp_all

lemma foldl_nat_digits: "foldl (\<lambda>a c. 10 * a + digit_val c) 0 (nat_digits n) = int n"
proof (induction n rule: nat_digits.induct)
  case (1 n)
  show ?case
  proof (cases "n < 10")
    case True
    then show ?thesis by (subst nat_digits.simps) (simp add: digit_val_digit_char)
  next
    case False
    then have "foldl (\<lambda>a c. 10 * a + digit_val c) 0 (nat_digits n)
               = 10 * int (n div 10) + int (n mod 10)"
      using 1 by (subst nat_digits.simps) (simp add: digit_val_digit_char)
    also have "\<dots> = int n"
      by (metis mult.commute of_nat_add of_nat_mult of_nat_numeral div_mult_mod_eq mult.commute)
    finally show ?thesis .
  qed
qed

lemma digits_value_nat_digits: "digits_value (nat_digits n) = Some (int n)"
proof -
  obtain c cs where eq: "nat_digits n = c # cs"
    using nat_digits_nonempty by (cases "nat_digits n") auto
  have all: "list_all is_digit (nat_digits n)" by (rule nat_digits_all_digits)
  then have "is_digit c" using eq by simp
  moreover have "digits_acc 0 (nat_digits n) = Some (int n)"
    using digits_acc_append [OF all, of 0 "[]"] foldl_nat_digits by simp
  ultimately show ?thesis by (simp add: digits_value_def eq)
qed

lemma is_digit_not_int_space: "is_digit c \<Longrightarrow> \<not> is_int_space c"
  by (auto simp: is_digit_def is_int_space_def Let_def)

lemma int_strip_digits:
  assumes "list_all is_digit ds"
  shows "int_strip ds = ds"
proof (cases ds rule: rev_cases)
  case Nil
  then show ?thesis by (simp add: int_strip_def)
next
  case (snoc ys y)
  show ?thesis
  proof (cases ds)
    case Nil
    then show ?thesis by (simp add: int_strip_def)
  next
    case (Cons c cs)
    have "\<not> is_int_space c" using assms Cons by (simp add: is_digit_not_int_space)
    then have 1: "dropWhile is_int_space ds = ds" using Cons by simp
    have "\<not> is_int_space y" using assms snoc by (simp add: is_digit_not_int_space)
    then have 2: "dropWhile is_int_space (rev ds) = rev ds" using snoc by simp
    show ?thesis by (simp add: int_strip_def 1 2)
  qed
qed

lemma py_int_nat_digits: "py_int (nat_digits n) = Some (int n)"
proof -
  obtain c cs where eq: "nat_digits n = c # cs"
    using nat_digits_nonempty by (cases "nat_digits n") auto
  have all: "list_all is_digit (nat_digits n)" by (rule nat_digits_all_digits)
  then have d: "is_digit c" using eq by simp
  then have "c \<noteq> CHR ''-''" "c \<noteq> CHR ''+''" by (auto simp: is_digit_def)
  then show ?thesis
    using digits_value_nat_digits [of n] int_strip_digits [OF all]
    by (simp add: py_int_def eq)
qed

lemma split_acc_no_sep:
  "\<not> sublist sep xs \<Longrightarrow> split_acc sep acc xs = [rev acc @ xs]"
proof (induction xs arbitrary: acc)
  case Nil
  then show ?case by simp
next
  case (Cons x xs)
  then have "\<not> prefix sep (x # xs)" "\<not> sublist sep xs"
    by (auto simp: sublist_Cons_right)
  with Cons.IH show ?case by simp
qed

lemma split_acc_skip:
  "sep \<noteq> [] \<Longrightarrow> hd sep \<notin> set ds \<Longrightarrow> split_acc sep acc (ds @ xs) = split_acc sep (rev ds @ acc) xs"
proof (induction ds arbitrary: acc)
  case Nil
  then show ?case by simp
next
  case (Cons d ds)
  then have "\<not> prefix sep (d # ds @ xs)"
    by (cases sep) auto
  with Cons show ?case by simp
qed

lemma split_acc_at_sep:
  "sep \<noteq> [] \<Longrightarrow> split_acc sep acc (sep @ xs) = rev acc # split_acc sep [] xs"
  by (cases sep) simp_all

lemma py_rsplit_encoded:
  assumes "sep \<noteq> []" "last sep \<notin> set ds" "\<not> sublist sep v"
  shows "py_rsplit sep (v @ sep @ ds) = [v, ds]"
proof -
  have h: "hd (rev sep) \<notin> set (rev ds)" using assms by (simp add: hd_rev)
  have n: "\<not> sublist (rev sep) (rev v)" using assms by simp
  have "split_acc (rev sep) [] (rev (v @ sep @ ds)) = split_acc (rev sep) [] (rev ds @ rev sep @ rev v)"
    by simp
  also have "\<dots> = split_acc (rev sep) (ds) (rev sep @ rev v)"
    using split_acc_skip [of "rev sep" "rev ds" "[]" "rev sep @ rev v"] assms h by simp
  also have "\<dots> = rev ds # split_acc (rev sep) [] (rev v)"
    using assms by (simp add: split_acc_at_sep)
  also have "\<dots> = [rev ds, rev v]"
    using n by (simp add: split_acc_no_sep)
  finally show ?thesis by (simp add: py_rsplit_def)
qed

lemma py_int_py_str: "0 \<le> n \<Longrightarrow> py_int (py_str n) = Some n"
  by (simp add: py_str_def py_int_nat_digits)

lemma py_rsplit_suffix:
  assumes "0 \<le> n" "\<not> sublist ''_LINE_'' v"
  shows "py_rsplit ''_LINE_'' (v @ ''_LINE_'' @ py_str n) = [v, py_str n]"
proof -
  have "list_all is_digit (py_str n)"
    using assms(1) by (simp add: py_str_def nat_digits_all_digits)
  then have "CHR ''_'' \<notin> set (py_str n)"
    by (auto simp: list_all_iff is_digit_def)
  then show ?thesis
    using py_rsplit_encoded [of "''_LINE_''" "py_str n" v] assms(2) by simp
qed

text \<open>
  C4. Decoding an encoding gives the value and the number back: for every integer
  \<open>n \<ge> 0\<close> and every string \<open>v\<close> in which the separator does not occur,
  \<open>extract_line_number(v + '_LINE_' + str(n))\<close> returns \<open>(v, n)\<close>.
\<close>

theorem extract_line_number_encode:
  "0 \<le> n \<Longrightarrow> \<not> sublist ''_LINE_'' v \<Longrightarrow>
   extract_line_number (v @ ''_LINE_'' @ py_str n) = Inr (v, Some n)"
  using py_rsplit_suffix [of n v] py_int_py_str [of n]
  by (simp add: extract_line_number_def LINE_SEP_def)

theorem extract_line_number_encode_witness:
  "(0::int) \<le> 5 \<and> \<not> sublist ''_LINE_'' ''_LINE'' \<and>
   extract_line_number (''_LINE'' @ ''_LINE_'' @ py_str 5) = Inr (''_LINE'', Some 5)"
  using extract_line_number_encode [of 5 "''_LINE''"]
  by (simp add: sublist_Cons_right)

section \<open>The prefix allocator: properties\<close>

lemma digits_loop_length:
  "digits_loop N count position digits = Inr ds \<Longrightarrow> length ds = length digits"
proof (induction N count position digits rule: digits_loop.induct)
  case (1 N count position digits)
  show ?case
  proof (cases "count = 0")
    case True
    with "1.prems" show ?thesis by (subst (asm) digits_loop.simps) simp
  next
    case False
    let ?q = "position - 1"
    let ?ds = "digits[nat (if ?q < 0 then ?q + int (length digits) else ?q) := count mod N]"
    from "1.prems" False have N: "N \<noteq> 0"
      by (subst (asm) digits_loop.simps) (simp split: if_splits)
    from "1.prems" False N have rng: "\<not> (?q < - int (length digits) \<or> int (length digits) \<le> ?q)"
      by (subst (asm) digits_loop.simps) (simp split: if_splits)
    from "1.prems" False N rng have "digits_loop N (count div N) ?q ?ds = Inr ds"
      by (subst (asm) digits_loop.simps) (simp split: if_splits)
    then have "length ds = length ?ds"
      using "1.IH" [OF False N rng] by simp
    then show ?thesis by simp
  qed
qed

lemma join_chars_result:
  "join_chars alphabet cs = Inr s \<Longrightarrow> length s = length cs \<and> set s \<subseteq> set alphabet"
  by (induction cs arbitrary: s)
     (auto simp: alphabet_at_def split: sum.splits if_splits)

lemma prefix_of_count_result:
  "prefix_of_count L alphabet count = Inr p \<Longrightarrow> length p = L \<and> set p \<subseteq> set alphabet"
  unfolding prefix_of_count_def
  by (auto split: sum.splits dest!: digits_loop_length join_chars_result)

lemma prefix_search_result:
  "prefix_search L alphabet taken count = Inr p \<Longrightarrow>
   p \<notin> taken \<and> length p = L \<and> set p \<subseteq> set alphabet"
proof (induction L alphabet taken count rule: prefix_search.induct)
  case (1 L alphabet taken count)
  have inrange: "\<not> length alphabet ^ L \<le> count"
    using "1.prems" by (subst (asm) prefix_search.simps) (simp split: if_splits)
  show ?case
  proof (cases "prefix_of_count L alphabet count")
    case (Inl e)
    with "1.prems" inrange show ?thesis
      by (subst (asm) prefix_search.simps) simp
  next
    case (Inr q)
    show ?thesis
    proof (cases "q \<in> taken")
      case False
      with "1.prems" inrange Inr have "p = q"
        by (subst (asm) prefix_search.simps) simp
      with False Inr show ?thesis
        using prefix_of_count_result [of L alphabet count q] by simp
    next
      case True
      with "1.prems" inrange Inr
      have "prefix_search L alphabet taken (Suc count) = Inr p"
        by (subst (asm) prefix_search.simps) simp
      with "1.IH" [OF inrange Inr] True show ?thesis by simp
    qed
  qed
qed


lemma colon_not_word: "\<not> is_word_char CHR '':''"
  by (simp add: is_word_char_def)

lemma prefix_token_match_here:
  "list_all is_word_char p \<Longrightarrow>
   prefix_token_match (length p) (p @ CHR '':'' # v) = Some (length p + 1, p)"
  by (simp add: prefix_token_match_def nth_append)

lemma prefix_token_match_SomeD:
  "prefix_token_match L doc = Some a \<Longrightarrow>
   a = (L + 1, take L doc) \<and> L < length doc \<and> doc ! L = CHR '':''"
  by (auto simp: prefix_token_match_def split: if_splits)

lemma prefix_token_found:
  "doc = u @ p @ CHR '':'' # v \<Longrightarrow> list_all is_word_char p \<Longrightarrow>
   p \<in> set (re_findall (prefix_token_match (length p)) doc)"
proof (induction "length doc" arbitrary: doc u rule: less_induct)
  case less
  let ?L = "length p"
  let ?m = "prefix_token_match ?L"
  show ?case
  proof (cases u)
    case Nil
    then have doc: "doc = p @ CHR '':'' # v" using less.prems(1) by simp
    have m: "?m (p @ CHR '':'' # v) = Some (?L + 1, p)"
      using less.prems(2) by (rule prefix_token_match_here)
    show ?thesis
    proof (cases p)
      case Nil
      with m show ?thesis unfolding doc by simp
    next
      case (Cons c cs)
      with m show ?thesis unfolding doc by simp
    qed
  next
    case (Cons x u')
    define xs where "xs = u' @ p @ CHR '':'' # v"
    have doc: "doc = x # xs" using less.prems(1) Cons by (simp add: xs_def)
    have shorter: "length xs < length doc" by (simp add: doc)
    show ?thesis
    proof (cases "?m (x # xs)")
      case None
      have "p \<in> set (re_findall ?m xs)"
        using less.hyps [OF shorter xs_def less.prems(2)] .
      with None show ?thesis unfolding doc by simp
    next
      case (Some a)
      from prefix_token_match_SomeD [OF Some]
      have a: "a = (?L + 1, take ?L (x # xs))" and colon: "(x # xs) ! ?L = CHR '':''"
        by simp_all
      have "\<not> length u' < ?L"
      proof
        assume lt: "length u' < ?L"
        then obtain k where k: "?L = Suc k" by (cases "?L") auto
        with lt have ku: "length u' \<le> k" and idx: "k - length u' < length p" by arith+
        have "(x # xs) ! Suc k = xs ! k" by simp
        also have "\<dots> = (p @ CHR '':'' # v) ! (k - length u')"
          using ku by (simp add: xs_def nth_append)
        also have "\<dots> = p ! (k - length u')"
          using idx by (simp add: nth_append)
        finally have "(x # xs) ! ?L = p ! (k - length u')" using k by simp
        moreover have "is_word_char (p ! (k - length u'))"
          using less.prems(2) idx by (simp add: list_all_length)
        ultimately show False using colon colon_not_word by simp
      qed
      then have ge: "?L \<le> length u'" by simp
      define ys where "ys = drop ?L xs"
      have ys: "ys = drop ?L u' @ p @ CHR '':'' # v"
        using ge by (simp add: ys_def xs_def)
      have "length ys < length doc" by (simp add: ys_def doc)
      then have "p \<in> set (re_findall ?m ys)"
        using less.hyps [of ys "drop ?L u'"] ys less.prems(2) by blast
      then have "p \<in> set (re_findall ?m (drop (?L + 1 - 1) xs))"
        by (simp add: ys_def)
      then show ?thesis unfolding doc a [symmetric]
        using Some a by simp
    qed
  qed
qed

text \<open>
  C5. The exhaustion test compares the number of taken strings with the length of the
  alphabet, not with the number of candidates. With the default length and alphabet, a
  text with 26 different three-character tokens before a colon makes
  \<open>autogenerate_empty_prefix\<close> raise, although 17550 of the 17576 candidates are unused.
\<close>

theorem autogenerate_empty_prefix_default_raises:
  "autogenerate_empty_prefix
     ''aaa:aab:aac:aad:aae:aaf:aag:aah:aai:aaj:aak:aal:aam:aan:aao:aap:aaq:aar:aas:aat:aau:aav:aaw:aax:aay:aaz:''
     DEFAULT_PREFIX_LENGTH DEFAULT_ALPHABET
   = Inl (Exception ''Could not find unused prefix sequence!'')"
  by code_simp

text \<open>
  C6, amended. When every character of the alphabet is a word character (as those of the
  default alphabet are), a prefix returned by \<open>autogenerate_empty_prefix\<close> has the
  requested length, is drawn from the alphabet, and followed by a colon it occurs nowhere
  in the text.
\<close>

theorem autogenerate_empty_prefix_unused:
  "list_all is_word_char alphabet \<Longrightarrow>
   autogenerate_empty_prefix doc prefix_length alphabet = Inr p \<Longrightarrow>
   length p = prefix_length \<and> set p \<subseteq> set alphabet \<and> \<not> sublist (p @ '':'') doc"
proof -
  assume alpha: "list_all is_word_char alphabet"
    and res: "autogenerate_empty_prefix doc prefix_length alphabet = Inr p"
  let ?taken = "set (re_findall (prefix_token_match prefix_length) doc)"
  from res have "prefix_search prefix_length alphabet ?taken 0 = Inr p"
    by (simp add: autogenerate_empty_prefix_def Let_def split: if_splits)
  then have free: "p \<notin> ?taken" and len: "length p = prefix_length"
    and sub: "set p \<subseteq> set alphabet"
    using prefix_search_result by blast+
  have word: "list_all is_word_char p"
    using alpha sub by (auto simp: list_all_iff)
  have "\<not> sublist (p @ '':'') doc"
  proof
    assume "sublist (p @ '':'') doc"
    then obtain u v where "doc = u @ p @ CHR '':'' # v"
      by (auto simp: sublist_def)
    then have "p \<in> set (re_findall (prefix_token_match (length p)) doc)"
      using word by (rule prefix_token_found)
    with free len show False by simp
  qed
  with len sub show ?thesis by simp
qed

theorem autogenerate_empty_prefix_unused_witness:
  \<open>list_all is_word_char ''abc'' \<and>
   autogenerate_empty_prefix ''{"aa:x": "ab:y"}'' 2 ''abc'' = Inr ''ac'' \<and>
   length ''ac'' = (2::nat) \<and> set ''ac'' \<subseteq> set ''abc'' \<and>
   \<not> sublist (''ac'' @ '':'') ''{"aa:x": "ab:y"}''\<close>
proof -
  have a: "list_all is_word_char ''abc''" by code_simp
  have r: \<open>autogenerate_empty_prefix ''{"aa:x": "ab:y"}'' 2 ''abc'' = Inr ''ac''\<close>
    by code_simp
  from autogenerate_empty_prefix_unused [OF a r] a r show ?thesis by simp
qed

text \<open>
  The claim as stated, for any alphabet, fails where the alphabet has a character that
  \<open>\w\<close> does not match: the scan for taken prefixes cannot see \<open>-:\<close>.
\<close>

theorem autogenerate_empty_prefix_counterexample:
  "autogenerate_empty_prefix ''-:'' 1 ''-'' = Inr ''-'' \<and> sublist (''-'' @ '':'') ''-:''"
  by code_simp

section \<open>The text rewriter: the empty prefix\<close>

lemma re_subn_no_occurrence:
  "occurrences m doc = 0 \<Longrightarrow> re_subn m repl doc = (doc, 0)"
  by (induction doc) (auto split: if_splits)

lemma occurrences_skip:
  "(\<forall>k<j. m (drop k ys) = None) \<Longrightarrow> occurrences m ys = occurrences m (drop j ys)"
proof (induction j arbitrary: ys)
  case 0
  then show ?case by simp
next
  case (Suc j)
  show ?case
  proof (cases ys)
    case Nil
    then show ?thesis by simp
  next
    case (Cons y ys')
    have here: "m (y # ys') = None" using Suc.prems Cons by (auto dest: spec [of _ 0])
    have "\<forall>k<j. m (drop k ys') = None"
    proof (intro allI impI)
      fix k assume "k < j"
      then have "m (drop (Suc k) ys) = None" using Suc.prems by simp
      then show "m (drop k ys') = None" using Cons by simp
    qed
    then have "occurrences m ys' = occurrences m (drop j ys')" by (rule Suc.IH)
    then show ?thesis using Cons here by simp
  qed
qed

lemma re_subn_count:
  assumes "\<And>xs n g k. m xs = Some (n, g) \<Longrightarrow> 0 < k \<Longrightarrow> k < n \<Longrightarrow> m (drop k xs) = None"
  shows "snd (re_subn m repl doc) = occurrences m doc"
proof (induction "length doc" arbitrary: doc rule: less_induct)
  case less
  show ?case
  proof (cases doc)
    case Nil
    then show ?thesis by simp
  next
    case (Cons x xs)
    show ?thesis
    proof (cases "m (x # xs)")
      case None
      have "snd (re_subn m repl xs) = occurrences m xs"
        using less [of xs] Cons by simp
      then show ?thesis using None Cons by (auto split: prod.splits)
    next
      case (Some a)
      obtain n g where a: "a = (n, g)" by (cases a)
      have "\<forall>k<n - 1. m (drop k xs) = None"
      proof (intro allI impI)
        fix k assume k: "k < n - 1"
        have "m (drop (Suc k) (x # xs)) = None"
          using Some a k by (intro assms [of "x # xs" n g "Suc k"]) auto
        then show "m (drop k xs) = None" by simp
      qed
      then have skip: "occurrences m xs = occurrences m (drop (n - 1) xs)"
        by (rule occurrences_skip)
      have "snd (re_subn m repl (drop (n - 1) xs)) = occurrences m (drop (n - 1) xs)"
        using less [of "drop (n - 1) xs"] Cons by simp
      then show ?thesis using Some a Cons skip by (auto split: prod.splits)
    qed
  qed
qed


lemma ecm_Nil: "empty_context_match [] = None"
  by (simp add: empty_context_match_def)

lemma ecm_head: "c \<noteq> CHR 0x22 \<Longrightarrow> empty_context_match (c # r) = None"
  by (simp add: empty_context_match_def)

lemma ecm_second: "c \<noteq> CHR 0x22 \<Longrightarrow> empty_context_match (d # c # r) = None"
  by (simp add: empty_context_match_def)

lemma ecm_inside_word:
  assumes "j < length s" "CHR 0x22 \<notin> set s"
  shows "empty_context_match (drop j (s @ r)) = None"
proof -
  from assms(1) obtain c t where d: "drop j s = c # t"
    by (cases "drop j s") auto
  then have "c \<in> set s" by (metis in_set_dropD list.set_intros(1))
  with assms(2) have "c \<noteq> CHR 0x22" by auto
  then show ?thesis using assms(1) d by (simp add: ecm_head)
qed

lemma ecm_inside_tail:
  assumes "list_all is_space_char ws" "s \<noteq> []" "CHR 0x22 \<notin> set s"
    and "j < length ws + 1 + length s"
  shows "empty_context_match (drop j (ws @ CHR 0x22 # s @ r)) = None"
  using assms
proof (induction ws arbitrary: j)
  case Nil
  show ?case
  proof (cases j)
    case 0
    obtain c t where "s = c # t" using Nil.prems(2) by (cases s) auto
    moreover from this Nil.prems(3) have "c \<noteq> CHR 0x22" by auto
    ultimately show ?thesis using 0 by (simp add: ecm_second)
  next
    case (Suc j')
    with Nil.prems have "j' < length s" by simp
    then show ?thesis using Suc ecm_inside_word [OF _ Nil.prems(3), of j' r] by simp
  qed
next
  case (Cons w ws)
  show ?case
  proof (cases j)
    case 0
    have "w \<noteq> CHR 0x22" using Cons.prems(1) by (auto simp: is_space_char_def)
    with 0 show ?thesis by (simp add: ecm_head)
  next
    case (Suc j')
    with Cons.prems have "j' < length ws + 1 + length s" by simp
    with Cons.IH [of j'] Cons.prems Suc show ?thesis by simp
  qed
qed

lemma ecm_SomeD:
  assumes "empty_context_match xs = Some (n, g)"
  shows "\<exists>ws s r. xs = CHR 0x22 # CHR 0x22 # CHR '':'' # ws @ CHR 0x22 # s @ r \<and>
           list_all is_space_char ws \<and> s \<noteq> [] \<and> CHR 0x22 \<notin> set s \<and>
           n = 3 + length ws + 1 + length s \<and> g = ws @ CHR 0x22 # s"
proof -
  let ?q = "CHR 0x22 :: char"
  from assms have p: \<open>prefix ''"":'' xs\<close>
    by (simp add: empty_context_match_def split: if_splits)
  then obtain t where xs: "xs = ?q # ?q # CHR '':'' # t"
    by (auto simp: prefix_def)
  define ws where "ws = takeWhile is_space_char t"
  define rest where "rest = dropWhile is_space_char t"
  have t: "t = ws @ rest" by (simp add: ws_def rest_def)
  have d3: "drop 3 xs = t" by (simp add: xs numeral_3_eq_3)
  have ws: "list_all is_space_char ws"
    unfolding ws_def list_all_iff by (metis set_takeWhileD)
  have m: "empty_context_match xs =
     (if prefix (?q # ''http://'') rest then Some (3 + length ws + 8, ws @ ?q # ''http://'')
      else if prefix (?q # ''https://'') rest then Some (3 + length ws + 9, ws @ ?q # ''https://'')
      else if prefix (?q # ''file://'') rest then Some (3 + length ws + 8, ws @ ?q # ''file://'')
      else None)"
    using p by (simp add: empty_context_match_def Let_def d3 ws_def rest_def)
  have shape: "\<exists>r. xs = ?q # ?q # CHR '':'' # ws @ ?q # s @ r"
    if "prefix (?q # s) rest" for s
  proof -
    from that obtain r where "rest = (?q # s) @ r" by (rule prefixE)
    then have "xs = ?q # ?q # CHR '':'' # ws @ ?q # s @ r" by (simp add: xs t)
    then show ?thesis ..
  qed
  show ?thesis
  proof (cases "prefix (?q # ''http://'') rest")
    case True
    with m assms have "n = 3 + length ws + 1 + length ''http://''" "g = ws @ ?q # ''http://''"
      by simp_all
    moreover from shape [OF True] obtain r where
      "xs = ?q # ?q # CHR '':'' # ws @ ?q # ''http://'' @ r" ..
    ultimately show ?thesis using ws
      by (intro exI [of _ ws] exI [of _ "''http://''"] exI [of _ r]) simp
  next
    case nohttp: False
    show ?thesis
    proof (cases "prefix (?q # ''https://'') rest")
      case True
      with m assms nohttp
      have "n = 3 + length ws + 1 + length ''https://''" "g = ws @ ?q # ''https://''"
        by simp_all
      moreover from shape [OF True] obtain r where
        "xs = ?q # ?q # CHR '':'' # ws @ ?q # ''https://'' @ r" ..
      ultimately show ?thesis using ws
        by (intro exI [of _ ws] exI [of _ "''https://''"] exI [of _ r]) simp
    next
      case nohttps: False
      with m assms nohttp have f: "prefix (?q # ''file://'') rest"
        by (simp split: if_splits)
      with m assms nohttp nohttps
      have "n = 3 + length ws + 1 + length ''file://''" "g = ws @ ?q # ''file://''"
        by simp_all
      moreover from shape [OF f] obtain r where
        "xs = ?q # ?q # CHR '':'' # ws @ ?q # ''file://'' @ r" ..
      ultimately show ?thesis using ws
        by (intro exI [of _ ws] exI [of _ "''file://''"] exI [of _ r]) simp
    qed
  qed
qed

lemma no_overlap_empty_context:
  assumes m: "empty_context_match xs = Some (n, g)" and k0: "0 < k" and kn: "k < n"
  shows "empty_context_match (drop k xs) = None"
proof -
  from ecm_SomeD [OF m] obtain ws s r where
    xs: "xs = CHR 0x22 # CHR 0x22 # CHR '':'' # ws @ CHR 0x22 # s @ r"
    and ws: "list_all is_space_char ws" and s: "s \<noteq> []" "CHR 0x22 \<notin> set s"
    and n: "n = 3 + length ws + 1 + length s"
    by blast
  consider "k = 1" | "k = 2" | j where "k = 3 + j" "j < length ws + 1 + length s"
  proof (cases "k < 3")
    case True
    with k0 have "k = 1 \<or> k = 2" by arith
    with that show ?thesis by blast
  next
    case False
    then have "k = 3 + (k - 3)" "k - 3 < length ws + 1 + length s" using kn n by arith+
    with that show ?thesis by blast
  qed
  then show ?thesis
  proof cases
    case 1
    then show ?thesis using xs by (simp add: ecm_second)
  next
    case 2
    then show ?thesis using xs by (simp add: ecm_head numeral_2_eq_2)
  next
    case 3
    have "drop k xs = drop j (ws @ CHR 0x22 # s @ r)"
      using 3(1) xs by (simp add: numeral_3_eq_3)
    then show ?thesis using ecm_inside_tail [OF ws s 3(2)] by simp
  qed
qed


lemma empty_context_match_shape:
  assumes "list_all is_space_char ws" "s = ''http'' \<or> s = ''https'' \<or> s = ''file''"
  shows "empty_context_match (CHR 0x22 # CHR 0x22 # CHR '':'' # ws @ CHR 0x22 # s @ ''://'' @ r)
         = Some (3 + length ws + 1 + length s + 3, ws @ CHR 0x22 # s @ ''://'')"
proof -
  have q: "\<not> is_space_char (CHR 0x22)" by (simp add: is_space_char_def)
  have tw: "takeWhile is_space_char (ws @ CHR 0x22 # s @ ''://'' @ r) = ws"
    using assms(1) q by (simp add: list_all_iff)
  have dw: "dropWhile is_space_char (ws @ CHR 0x22 # s @ ''://'' @ r) = CHR 0x22 # s @ ''://'' @ r"
    using assms(1) q by (simp add: list_all_iff)
  have d3: "drop 3 (CHR 0x22 # CHR 0x22 # CHR '':'' # ws @ CHR 0x22 # s @ ''://'' @ r)
            = ws @ CHR 0x22 # s @ ''://'' @ r"
    by (simp add: numeral_3_eq_3)
  from assms(2) show ?thesis
    unfolding empty_context_match_def d3 tw dw Let_def by auto
qed

text \<open>
  C7. A text in which the empty-prefix declaration pattern occurs more than once makes
  \<open>replace_empty_prefix\<close> raise: the caller gets the error and no rewritten text.
\<close>

theorem replace_empty_prefix_multiple:
  "1 < occurrences empty_context_match doc \<Longrightarrow>
   replace_empty_prefix doc empty_prefix
   = Inl (Exception ''Found multiple tokens that look like empty-string contexts'')"
proof -
  assume many: "1 < occurrences empty_context_match doc"
  let ?repl = "\<lambda>g. [CHR 0x22] @ empty_prefix @ [CHR 0x22, CHR '':''] @ g"
  obtain text1 count where r: "re_subn empty_context_match ?repl doc = (text1, count)"
    by (cases "re_subn empty_context_match ?repl doc")
  have "snd (re_subn empty_context_match ?repl doc) = occurrences empty_context_match doc"
    by (rule re_subn_count) (rule no_overlap_empty_context)
  with r many have "1 < count" by simp
  with r show ?thesis by (simp add: replace_empty_prefix_def)
qed

theorem replace_empty_prefix_multiple_witness:
  \<open>1 < occurrences empty_context_match ''{"": "http://a/", "":"file://b/"}'' \<and>
   replace_empty_prefix ''{"": "http://a/", "":"file://b/"}'' ''abc''
   = Inl (Exception ''Found multiple tokens that look like empty-string contexts'')\<close>
proof -
  have h: \<open>1 < occurrences empty_context_match ''{"": "http://a/", "":"file://b/"}''\<close>
    by code_simp
  from replace_empty_prefix_multiple [OF h] h show ?thesis by simp
qed

text \<open>
  C10. For a text in which the empty-prefix declaration pattern does not occur,
  \<open>replace_empty_prefix\<close> raises nothing and returns the text as it is, so the tokens
  \<open>":identifier"\<close> are not rewritten either, and \<open>precondition\<close> goes on to embed
  the line numbers in that same text (once the prefix is there: given, or generated).
\<close>

theorem replace_empty_prefix_none:
  "occurrences empty_context_match doc = 0 \<Longrightarrow>
   replace_empty_prefix doc empty_prefix = Inr doc \<and>
   precondition doc (Some empty_prefix) = Inr (embed_line_numbers doc) \<and>
   precondition doc None
   = (case autogenerate_empty_prefix doc DEFAULT_PREFIX_LENGTH DEFAULT_ALPHABET of
        Inl e \<Rightarrow> Inl e
      | Inr p \<Rightarrow> Inr (embed_line_numbers doc))"
proof -
  assume none: "occurrences empty_context_match doc = 0"
  have r: "replace_empty_prefix doc p = Inr doc" for p
    using re_subn_no_occurrence [OF none] by (simp add: replace_empty_prefix_def)
  then show ?thesis
    by (simp add: precondition_def split: sum.splits)
qed

theorem replace_empty_prefix_none_witness:
  \<open>occurrences empty_context_match ''{"@id": ":a", "see": "http://x/"}'' = 0 \<and>
   replace_empty_prefix ''{"@id": ":a", "see": "http://x/"}'' ''abc''
   = Inr ''{"@id": ":a", "see": "http://x/"}''\<close>
proof -
  have h: \<open>occurrences empty_context_match ''{"@id": ":a", "see": "http://x/"}'' = 0\<close>
    by code_simp
  from replace_empty_prefix_none [OF h, of "''abc''"] h show ?thesis by simp
qed

text \<open>With exactly one declaration, both substitutions are made.\<close>

lemma step_b_runs_after_one_declaration:
  \<open>replace_empty_prefix ''{"": "http://x/", "@id": ":a"}'' ''abc''
   = Inr ''{"abc": "http://x/", "@id": "abc:a"}''\<close>
  by code_simp

section \<open>The graph normalizer: properties\<close>

lemma py_rsplit_plain: "\<not> sublist sep u \<Longrightarrow> py_rsplit sep u = [u]"
proof -
  assume "\<not> sublist sep u"
  then have "\<not> sublist (rev sep) (rev u)" by simp
  then have "split_acc (rev sep) [] (rev u) = [rev u]"
    using split_acc_no_sep [of "rev sep" "rev u" "[]"] by simp
  then show ?thesis by (simp add: py_rsplit_def)
qed

lemma extract_line_number_plain:
  "\<not> sublist ''_LINE_'' u \<Longrightarrow> extract_line_number u = Inr (u, None)"
  by (simp add: extract_line_number_def LINE_SEP_def py_rsplit_plain)

lemma normalize_object_BNode:
  "normalize_object lexical context s (BNode b) ln = Inr (BNode b, ln)"
  by (simp add: normalize_object_def strip_datatype_def expand_prefix_def strip_uriref_def)

subsection \<open>The three steps of the loop body\<close>


lemma strip_datatype_no_datatype:
  "dt = None \<or> dt = Some [] \<Longrightarrow>
   strip_datatype lexical s (Literal v lang dt) ln = Inr (Literal v lang dt, ln)"
  by (auto simp: strip_datatype_def)


lemma split_colon1_at:
  "CHR '':'' \<notin> set l \<Longrightarrow> split_colon1 (l @ CHR '':'' # r) = [l, r]"
proof -
  assume l: "CHR '':'' \<notin> set l"
  then have "takeWhile (\<lambda>c. c \<noteq> CHR '':'') (l @ CHR '':'' # r) = l"
    by (induction l) auto
  moreover from l have "dropWhile (\<lambda>c. c \<noteq> CHR '':'') (l @ CHR '':'' # r) = CHR '':'' # r"
    by (induction l) auto
  ultimately show ?thesis by (simp add: split_colon1_def)
qed

lemma expand_prefix_prefixed_literal:
  assumes "dt = None \<or> dt = Some []" "CHR '':'' \<notin> set l" "context l = Some e"
  shows "expand_prefix context (Literal (l @ CHR '':'' # r) lang dt) = URIRef (e @ r)"
  using assms(1,3) split_colon1_at [OF assms(2), of r]
  by (auto simp: expand_prefix_def)

lemma strip_uriref_URIRef:
  assumes "strip_uriref s (URIRef u) ln = Inr (ob, ln')"
  shows "\<exists>stripped number. extract_line_number u = Inr (stripped, number) \<and>
           ob = URIRef (if truthy number then stripped else u)"
proof (cases "extract_line_number u")
  case (Inl e)
  with assms show ?thesis by (simp add: strip_uriref_def)
next
  case (Inr a)
  obtain stripped number where a: "a = (stripped, number)" by (cases a)
  with assms Inr have "ob = URIRef (if truthy number then stripped else u)"
    by (simp add: strip_uriref_def split: if_splits)
  with Inr a show ?thesis by simp
qed

subsection \<open>What a pass of the loop body does to the table\<close>






subsection \<open>The loop\<close>

lemma triples_loop_append:
  "triples_loop lexical context (g1 @ g2) acc ln =
     (case triples_loop lexical context g1 acc ln of
        Inl e \<Rightarrow> Inl e
      | Inr (acc', ln') \<Rightarrow> triples_loop lexical context g2 acc' ln')"
  by (induction g1 arbitrary: acc ln) (auto split: sum.splits)

lemma triples_loop_keeps:
  "triples_loop lexical context g acc ln = Inr (g', ln') \<Longrightarrow>
   length g' = length acc + length g \<and> take (length acc) g' = acc"
proof (induction g arbitrary: acc ln)
  case Nil
  then show ?case by simp
next
  case (Cons t g)
  obtain s p ob where t: "t = (s, p, ob)" by (cases t)
  from Cons.prems t obtain ob1 ln1 where
    n: "normalize_object lexical context s ob ln = Inr (ob1, ln1)"
    and rest: "triples_loop lexical context g (acc @ [(s, p, ob1)]) ln1 = Inr (g', ln')"
    by (auto split: sum.splits)
  from Cons.IH [OF rest] have len: "length g' = length (acc @ [(s, p, ob1)]) + length g"
    and tk: "take (length (acc @ [(s, p, ob1)])) g' = acc @ [(s, p, ob1)]" by simp_all
  have "take (length acc) g' = take (length acc) (take (length (acc @ [(s, p, ob1)])) g')"
    by (simp add: min_def)
  also have "\<dots> = acc" by (simp only: tk) simp
  finally show ?case using len by simp
qed


lemma postcondition_at:
  assumes "postcondition lexical graph context = Inr (new_graph, line_numbers)"
    and "i < length graph" and "graph ! i = (s, p, ob)"
  shows "\<exists>acc ln ob' ln'.
           triples_loop lexical context (take i graph) [] Map.empty = Inr (acc, ln) \<and>
           normalize_object lexical context s ob ln = Inr (ob', ln') \<and>
           triples_loop lexical context (drop (Suc i) graph) (acc @ [(s, p, ob')]) ln'
             = Inr (new_graph, line_numbers) \<and>
           length new_graph = length graph \<and> new_graph ! i = (s, p, ob')"
proof -
  have g: "graph = take i graph @ (s, p, ob) # drop (Suc i) graph"
    using assms(2,3) by (metis id_take_nth_drop)
  have "triples_loop lexical context (take i graph @ (s, p, ob) # drop (Suc i) graph) []
          Map.empty = Inr (new_graph, line_numbers)"
    using assms(1) g by (simp add: postcondition_def)
  then obtain acc ln where
    1: "triples_loop lexical context (take i graph) [] Map.empty = Inr (acc, ln)"
    and 2: "triples_loop lexical context ((s, p, ob) # drop (Suc i) graph) acc ln
            = Inr (new_graph, line_numbers)"
    by (auto simp: triples_loop_append split: sum.splits)
  from 2 obtain ob' ln' where
    3: "normalize_object lexical context s ob ln = Inr (ob', ln')"
    and 4: "triples_loop lexical context (drop (Suc i) graph) (acc @ [(s, p, ob')]) ln'
            = Inr (new_graph, line_numbers)"
    by (auto split: sum.splits)
  have la: "length acc = i"
    using triples_loop_keeps [OF 1] assms(2) by simp
  from triples_loop_keeps [OF 4] have
    len: "length new_graph = length (acc @ [(s, p, ob')]) + length (drop (Suc i) graph)"
    and tk: "take (length (acc @ [(s, p, ob')])) new_graph = acc @ [(s, p, ob')]" by simp_all
  have "new_graph ! i = take (length (acc @ [(s, p, ob')])) new_graph ! i"
    using la by simp
  also have "\<dots> = (s, p, ob')" by (simp only: tk) (simp add: la [symmetric])
  finally have nth: "new_graph ! i = (s, p, ob')" .
  have "length new_graph = length graph" using len la assms(2) by simp
  with 1 3 4 nth show ?thesis by blast
qed

text \<open>
  C9. Every triple of the new graph has the subject and the predicate of the triple of the
  graph it was built from, in the same position, and a triple whose object is a blank node
  is passed on as it is: only objects are replaced.
\<close>

theorem postcondition_frame:
  "postcondition lexical graph context = Inr (new_graph, line_numbers) \<Longrightarrow>
   length new_graph = length graph \<and>
   (\<forall>i<length graph.
      fst (new_graph ! i) = fst (graph ! i) \<and>
      fst (snd (new_graph ! i)) = fst (snd (graph ! i)) \<and>
      (\<forall>b. snd (snd (graph ! i)) = BNode b \<longrightarrow> new_graph ! i = graph ! i))"
proof -
  assume post: "postcondition lexical graph context = Inr (new_graph, line_numbers)"
  have len: "length new_graph = length graph"
    using triples_loop_keeps [of lexical "context" graph "[]" "Map.empty" new_graph line_numbers]
      post
    by (simp add: postcondition_def)
  have "fst (new_graph ! i) = fst (graph ! i) \<and>
        fst (snd (new_graph ! i)) = fst (snd (graph ! i)) \<and>
        (\<forall>b. snd (snd (graph ! i)) = BNode b \<longrightarrow> new_graph ! i = graph ! i)"
    if i: "i < length graph" for i
  proof -
    obtain s p ob where t: "graph ! i = (s, p, ob)" by (cases "graph ! i")
    from postcondition_at [OF post i t] obtain ln ob' ln' where
      n: "normalize_object lexical context s ob ln = Inr (ob', ln')"
      and nth: "new_graph ! i = (s, p, ob')" by blast
    have "ob' = ob" if "ob = BNode b" for b
      using n that by (simp add: normalize_object_BNode)
    with t nth show ?thesis by simp
  qed
  with len show ?thesis by blast
qed

theorem postcondition_frame_witness:
  "postcondition (\<lambda>v d. v)
     [(BNode ''n1'', URIRef ''knows'', BNode ''n2''),
      (BNode ''n1'', URIRef ''type'', URIRef ''Person_LINE_5'')] Map.empty
   = Inr ([(BNode ''n1'', URIRef ''knows'', BNode ''n2''),
           (BNode ''n1'', URIRef ''type'', URIRef ''Person'')], [BNode ''n1'' \<mapsto> 5]) \<and>
   length [(BNode ''n1'', URIRef ''knows'', BNode ''n2''),
           (BNode ''n1'', URIRef ''type'', URIRef ''Person'')]
   = length [(BNode ''n1'', URIRef ''knows'', BNode ''n2''),
             (BNode ''n1'', URIRef ''type'', URIRef ''Person_LINE_5'')] \<and>
   [(BNode ''n1'', URIRef ''knows'', BNode ''n2''),
    (BNode ''n1'', URIRef ''type'', URIRef ''Person'')] ! 0
   = [(BNode ''n1'', URIRef ''knows'', BNode ''n2''),
      (BNode ''n1'', URIRef ''type'', URIRef ''Person_LINE_5'')] ! 0"
proof -
  have h: "postcondition (\<lambda>v d. v)
     [(BNode ''n1'', URIRef ''knows'', BNode ''n2''),
      (BNode ''n1'', URIRef ''type'', URIRef ''Person_LINE_5'')] Map.empty
   = Inr ([(BNode ''n1'', URIRef ''knows'', BNode ''n2''),
           (BNode ''n1'', URIRef ''type'', URIRef ''Person'')], [BNode ''n1'' \<mapsto> 5])"
    by (simp add: postcondition_def normalize_object_def strip_datatype_def expand_prefix_def
        strip_uriref_def truthy_def extract_line_number_def py_rsplit_def LINE_SEP_def
        py_int_def int_strip_def is_int_space_def digits_value_def is_digit_def digit_val_def)
  from postcondition_frame [OF h] h show ?thesis by simp
qed

text \<open>
  C8, amended. A literal with no datatype whose text is \<open>left:right\<close>, with no colon in
  \<open>left\<close> and \<open>left\<close> a key of the context, becomes the reference whose text is the
  expansion of \<open>left\<close> followed by \<open>right\<close>, and that reference goes through the third
  step of the loop body: the object of the new triple is the reference with the text that
  \<open>extract_line_number\<close> returns for it when it finds a line number other than 0, and the
  expanded reference itself otherwise, as when its text holds no \<open>_LINE_\<close>.
\<close>

theorem postcondition_expands_prefixed_literal:
  assumes "postcondition lexical graph context = Inr (new_graph, line_numbers)"
    and "i < length graph"
    and "graph ! i = (s, p, Literal (l @ CHR '':'' # r) lang dt)"
    and "dt = None \<or> dt = Some []"
    and "CHR '':'' \<notin> set l"
    and "context l = Some e"
  shows "(\<exists>stripped number.
            extract_line_number (e @ r) = Inr (stripped, number) \<and>
            new_graph ! i = (s, p, URIRef (if truthy number then stripped else e @ r))) \<and>
         (\<not> sublist ''_LINE_'' (e @ r) \<longrightarrow> new_graph ! i = (s, p, URIRef (e @ r)))"
proof -
  from postcondition_at [OF assms(1-3)] obtain ln ob' ln' where
    n: "normalize_object lexical context s (Literal (l @ CHR '':'' # r) lang dt) ln
        = Inr (ob', ln')"
    and nth: "new_graph ! i = (s, p, ob')" by blast
  have "strip_uriref s (URIRef (e @ r)) ln = Inr (ob', ln')"
    using n strip_datatype_no_datatype [OF assms(4), of lexical s "l @ CHR '':'' # r" lang ln]
      expand_prefix_prefixed_literal [of dt l "context" e r lang] assms(4,5,6)
    by (simp add: normalize_object_def)
  from strip_uriref_URIRef [OF this] obtain stripped number where
    x: "extract_line_number (e @ r) = Inr (stripped, number)"
    and ob': "ob' = URIRef (if truthy number then stripped else e @ r)" by blast
  have "new_graph ! i = (s, p, URIRef (e @ r))" if "\<not> sublist ''_LINE_'' (e @ r)"
    using extract_line_number_plain [OF that] x ob' nth by (simp add: truthy_def)
  with x ob' nth show ?thesis by blast
qed

theorem postcondition_expands_prefixed_literal_witness:
  "postcondition (\<lambda>v d. v)
     [(BNode ''b'', URIRef ''p'', Literal (''foo'' @ CHR '':'' # ''Person_LINE_7'') None None)]
     [''foo'' \<mapsto> ''http://example.org/'']
   = Inr ([(BNode ''b'', URIRef ''p'', URIRef ''http://example.org/Person'')],
          [BNode ''b'' \<mapsto> 7]) \<and>
   (0::nat) < length
     [(BNode ''b'', URIRef ''p'', Literal (''foo'' @ CHR '':'' # ''Person_LINE_7'') None None)] \<and>
   CHR '':'' \<notin> set ''foo'' \<and>
   [''foo'' \<mapsto> ''http://example.org/''] ''foo'' = Some ''http://example.org/'' \<and>
   extract_line_number (''http://example.org/'' @ ''Person_LINE_7'')
   = Inr (''http://example.org/Person'', Some 7) \<and>
   [(BNode ''b'', URIRef ''p'', URIRef ''http://example.org/Person'')] ! 0
   = (BNode ''b'', URIRef ''p'',
      URIRef (if truthy (Some 7) then ''http://example.org/Person''
              else ''http://example.org/'' @ ''Person_LINE_7''))"
proof -
  have x: "extract_line_number (''http://example.org/'' @ ''Person_LINE_7'')
           = Inr (''http://example.org/Person'', Some 7)"
    by (simp add: extract_line_number_def py_rsplit_def LINE_SEP_def py_int_def int_strip_def
        is_int_space_def digits_value_def is_digit_def digit_val_def)
  have h: "postcondition (\<lambda>v d. v)
     [(BNode ''b'', URIRef ''p'', Literal (''foo'' @ CHR '':'' # ''Person_LINE_7'') None None)]
     [''foo'' \<mapsto> ''http://example.org/'']
   = Inr ([(BNode ''b'', URIRef ''p'', URIRef ''http://example.org/Person'')],
          [BNode ''b'' \<mapsto> 7])"
    by (simp add: postcondition_def normalize_object_def strip_datatype_def expand_prefix_def
        split_colon1_def strip_uriref_def truthy_def extract_line_number_def py_rsplit_def
        LINE_SEP_def py_int_def int_strip_def is_int_space_def digits_value_def is_digit_def
        digit_val_def)
  have c: "CHR '':'' \<notin> set ''foo''" by simp
  have k: "[''foo'' \<mapsto> ''http://example.org/''] ''foo'' = Some ''http://example.org/''"
    by simp
  from postcondition_expands_prefixed_literal
         [OF h _ _ _ c k, of 0 "BNode ''b''" "URIRef ''p''" "''Person_LINE_7''" None None]
  have "\<exists>stripped number.
          extract_line_number (''http://example.org/'' @ ''Person_LINE_7'')
          = Inr (stripped, number) \<and>
          [(BNode ''b'', URIRef ''p'', URIRef ''http://example.org/Person'')] ! 0
          = (BNode ''b'', URIRef ''p'',
             URIRef (if truthy number then stripped
                     else ''http://example.org/'' @ ''Person_LINE_7''))"
    by simp
  with x have "[(BNode ''b'', URIRef ''p'', URIRef ''http://example.org/Person'')] ! 0
   = (BNode ''b'', URIRef ''p'',
      URIRef (if truthy (Some 7) then ''http://example.org/Person''
              else ''http://example.org/'' @ ''Person_LINE_7''))"
    by auto
  with h c k x show ?thesis by blast
qed

text \<open>
  The claim as stated fails where the right part carries a line number: the new reference
  is stripped of it, and the number is stored.
\<close>

theorem postcondition_expands_prefixed_literal_counterexample:
  "postcondition (\<lambda>v d. v) [(BNode ''b'', URIRef ''p'', Literal ''foo:bar_LINE_5'' None None)]
     [''foo'' \<mapsto> ''http://example.org/'']
   = Inr ([(BNode ''b'', URIRef ''p'', URIRef ''http://example.org/bar'')], [BNode ''b'' \<mapsto> 5])"
  by (simp add: postcondition_def normalize_object_def strip_datatype_def expand_prefix_def
      split_colon1_def strip_uriref_def truthy_def extract_line_number_def py_rsplit_def
      LINE_SEP_def py_int_def int_strip_def is_int_space_def digits_value_def is_digit_def
      digit_val_def)




text \<open>
  A datatype that is the suffix alone leaves an empty datatype behind, and the literal is
  then taken for one without datatype: here the second step makes a reference of it.
\<close>

lemma postcondition_empty_stripped_datatype:
  "postcondition (\<lambda>v d. v)
     [(BNode ''b'', URIRef ''p'', Literal ''foo:bar'' None (Some ''_LINE_5''))]
     [''foo'' \<mapsto> ''http://example.org/'']
   = Inr ([(BNode ''b'', URIRef ''p'', URIRef ''http://example.org/bar'')], [BNode ''b'' \<mapsto> 5])"
  by (simp add: postcondition_def normalize_object_def strip_datatype_def expand_prefix_def
      split_colon1_def strip_uriref_def truthy_def extract_line_number_def py_rsplit_def
      LINE_SEP_def py_int_def int_strip_def is_int_space_def digits_value_def is_digit_def
      digit_val_def)

section \<open>The text rewriter: line numbers\<close>

lemma split_acc_char_plain: "c \<notin> set l \<Longrightarrow> split_acc [c] acc l = [rev acc @ l]"
  by (induction l arbitrary: acc) auto

lemma split_acc_char_cut:
  "c \<notin> set l \<Longrightarrow> split_acc [c] acc (l @ c # rest) = (rev acc @ l) # split_acc [c] [] rest"
  by (induction l arbitrary: acc) auto

lemma split_acc_pieces: "c \<notin> set acc \<Longrightarrow> \<forall>l \<in> set (split_acc [c] acc xs). c \<notin> set l"
proof (induction xs arbitrary: acc)
  case Nil
  then show ?case by simp
next
  case (Cons x xs)
  show ?case
  proof (cases "x = c")
    case True
    have "\<forall>l \<in> set (split_acc [c] [] xs). c \<notin> set l" by (rule Cons.IH) simp
    with True Cons.prems show ?thesis by simp
  next
    case False
    then have "c \<notin> set (x # acc)" using Cons.prems by auto
    then have "\<forall>l \<in> set (split_acc [c] (x # acc) xs). c \<notin> set l" by (rule Cons.IH)
    with False show ?thesis by simp
  qed
qed

lemma py_split_join:
  "ls \<noteq> [] \<Longrightarrow> (\<And>l. l \<in> set ls \<Longrightarrow> c \<notin> set l) \<Longrightarrow> py_split [c] (py_join [c] ls) = ls"
proof (induction "[c]" ls rule: py_join.induct)
  case 1
  then show ?case by simp
next
  case (2 x)
  then show ?case by (simp add: py_split_def split_acc_char_plain)
next
  case (3 x y ys)
  have "c \<notin> set x" using 3(3) by simp
  then have "py_split [c] (py_join [c] (x # y # ys)) = x # py_split [c] (py_join [c] (y # ys))"
    by (simp add: py_split_def split_acc_char_cut)
  moreover have "py_split [c] (py_join [c] (y # ys)) = y # ys"
    using 3(1) 3(3) by simp
  ultimately show ?case by simp
qed

lemma type_matcher_groups:
  assumes "type_matcher line = Some (g1, g2, g3)"
  shows "prefix (g1 @ g2 @ g3) line"
proof -
  define r1 where "r1 = dropWhile is_blank line"
  define r2 where "r2 = dropWhile is_blank (drop 8 r1)"
  define r3 where "r3 = dropWhile is_type_char (drop 1 r2)"
  from assms have p1: \<open>prefix ''"@type":'' r1\<close> and p2: \<open>prefix ''"'' r2\<close>
    and p3: \<open>prefix ''",'' r3\<close>
    and g1: \<open>g1 = takeWhile is_blank line @ ''"@type":'' @ takeWhile is_blank (drop 8 r1) @ ''"''\<close>
    and g2: "g2 = takeWhile is_type_char (drop 1 r2)" and g3: \<open>g3 = ''",''\<close>
    by (auto simp: type_matcher_def Let_def r1_def r2_def r3_def split: if_splits)
  have l: "line = takeWhile is_blank line @ r1" by (simp add: r1_def)
  from p1 have e1: \<open>r1 = ''"@type":'' @ drop 8 r1\<close>
    by (auto simp: prefix_def)
  have e2: "drop 8 r1 = takeWhile is_blank (drop 8 r1) @ r2" by (simp add: r2_def)
  from p2 have e3: \<open>r2 = ''"'' @ drop 1 r2\<close> by (auto simp: prefix_def)
  have e4: "drop 1 r2 = takeWhile is_type_char (drop 1 r2) @ r3" by (simp add: r3_def)
  from p3 obtain rest where e5: \<open>r3 = ''",'' @ rest\<close> by (auto simp: prefix_def)
  have "line = (g1 @ g2 @ g3) @ rest"
    apply (subst l, subst e1, subst e2, subst e3, subst e4, subst e5)
    apply (simp only: g1 g2 g3 append_assoc)
    done
  then show ?thesis by (metis prefixI)
qed


lemma split_acc_nonempty: "split_acc sep acc xs \<noteq> []"
  by (induction xs arbitrary: acc) auto

lemma py_str_no_newline: "CHR 0x0A \<notin> set (py_str k)"
proof -
  have nd: "\<not> is_digit (CHR 0x0A)" by (simp add: is_digit_def)
  have "CHR 0x0A \<notin> set (nat_digits m)" for m
    using nat_digits_all_digits [of m] nd by (auto simp: list_all_iff)
  then show ?thesis by (simp add: py_str_def)
qed

lemma embed_lines_length: "length (embed_lines k ls) = length ls"
  by (induction ls arbitrary: k) auto

lemma embed_lines_nth:
  "i < length ls \<Longrightarrow>
   embed_lines k ls ! i =
     (case type_matcher (ls ! i) of
        Some (g1, g2, g3) \<Rightarrow> g1 @ g2 @ ''_LINE_'' @ py_str (int (k + i) + 1) @ g3
      | None \<Rightarrow> ls ! i)"
proof (induction ls arbitrary: k i)
  case Nil
  then show ?case by simp
next
  case (Cons l ls)
  show ?case
  proof (cases i)
    case 0
    then show ?thesis by (simp split: option.splits)
  next
    case (Suc j)
    with Cons.prems have "j < length ls" by simp
    from Cons.IH [OF this, of "Suc k"] Suc show ?thesis by (simp split: option.splits)
  qed
qed

lemma embed_lines_no_newline:
  assumes "\<forall>l \<in> set ls. CHR 0x0A \<notin> set l"
  shows "\<forall>l \<in> set (embed_lines k ls). CHR 0x0A \<notin> set l"
  using assms
proof (induction ls arbitrary: k)
  case Nil
  then show ?case by simp
next
  case (Cons l ls)
  have "CHR 0x0A \<notin> set (g1 @ g2 @ ''_LINE_'' @ py_str n @ g3)"
    if "type_matcher l = Some (g1, g2, g3)" for g1 g2 g3 n
  proof -
    from type_matcher_groups [OF that] have "set (g1 @ g2 @ g3) \<subseteq> set l"
      by (rule set_mono_prefix)
    with Cons.prems have "CHR 0x0A \<notin> set (g1 @ g2 @ g3)" by auto
    then show ?thesis using py_str_no_newline [of n] by simp
  qed
  then show ?case using Cons by (auto split: option.splits)
qed

lemma embed_line_numbers_lines:
  "py_split ''\<newline>'' (embed_line_numbers doc) = embed_lines 0 (py_split ''\<newline>'' doc)"
proof -
  let ?ls = "py_split ''\<newline>'' doc"
  have ne: "embed_lines 0 ?ls \<noteq> []"
    using embed_lines_length [of 0 ?ls] split_acc_nonempty [of "''\<newline>''" "[]" doc]
    by (auto simp: py_split_def)
  have "\<forall>l \<in> set ?ls. CHR 0x0A \<notin> set l"
    using split_acc_pieces [of "CHR 0x0A" "[]" doc] by (simp add: py_split_def)
  then have "\<forall>l \<in> set (embed_lines 0 ?ls). CHR 0x0A \<notin> set l"
    by (rule embed_lines_no_newline)
  then show ?thesis
    using py_split_join [OF ne, of "CHR 0x0A"] by (simp add: embed_line_numbers_def)
qed

lemma type_matcher_whole:
  assumes "list_all is_blank sp" "list_all is_blank sp2" "v \<noteq> []" "list_all is_type_char v"
  shows \<open>type_matcher (sp @ ''"@type":'' @ sp2 @ ''"'' @ v @ ''",'' @ rest)
         = Some (sp @ ''"@type":'' @ sp2 @ ''"'', v, ''",'')\<close>
proof -
  let ?q = "CHR 0x22 :: char"
  have nb: "\<not> is_blank ?q" by (simp add: is_blank_def)
  have nt: "\<not> is_type_char ?q" by (simp add: is_type_char_def is_word_char_def)
  let ?a = \<open>''"@type":'' @ sp2 @ ''"'' @ v @ ''",'' @ rest\<close>
  let ?b = \<open>''"'' @ v @ ''",'' @ rest\<close>
  let ?c = \<open>''",'' @ rest\<close>
  have t1: "takeWhile is_blank (sp @ ?a) = sp" "dropWhile is_blank (sp @ ?a) = ?a"
    using assms(1) nb by (simp_all add: list_all_iff)
  have d8: "drop 8 ?a = sp2 @ ?b" by simp
  have t2: "takeWhile is_blank (sp2 @ ?b) = sp2" "dropWhile is_blank (sp2 @ ?b) = ?b"
    using assms(2) nb by (simp_all add: list_all_iff)
  have d1: "drop 1 ?b = v @ ?c" by simp
  have t3: "takeWhile is_type_char (v @ ?c) = v" "dropWhile is_type_char (v @ ?c) = ?c"
    using assms(4) nt by (simp_all add: list_all_iff)
  show ?thesis
    unfolding type_matcher_def Let_def t1 d8 t2 d1 t3 using assms(3) by simp
qed

text \<open>
  What the function does to a line that is a type declaration and nothing else, and to a
  line on which the pattern does not match.
\<close>

lemma embed_line_numbers_declaration_line:
  assumes "i < length (py_split ''\<newline>'' doc)"
    and \<open>py_split ''\<newline>'' doc ! i = sp @ ''"@type":'' @ sp2 @ ''"'' @ v @ ''",''\<close>
    and "list_all is_blank sp" "list_all is_blank sp2" "v \<noteq> []" "list_all is_type_char v"
  shows \<open>py_split ''\<newline>'' (embed_line_numbers doc) ! i
         = sp @ ''"@type":'' @ sp2 @ ''"'' @ v @ ''_LINE_'' @ py_str (int i + 1) @ ''",''\<close>
proof -
  have \<open>type_matcher (py_split ''\<newline>'' doc ! i) = Some (sp @ ''"@type":'' @ sp2 @ ''"'', v, ''",'')\<close>
    using type_matcher_whole [OF assms(3-6), of "[]"] assms(2) by simp
  then show ?thesis
    using embed_lines_nth [OF assms(1), of 0] by (simp add: embed_line_numbers_lines)
qed

lemma embed_line_numbers_other_line:
  assumes "i < length (py_split ''\<newline>'' doc)"
    and "type_matcher (py_split ''\<newline>'' doc ! i) = None"
  shows "py_split ''\<newline>'' (embed_line_numbers doc) ! i = py_split ''\<newline>'' doc ! i"
  using embed_lines_nth [OF assms(1), of 0] assms(2) by (simp add: embed_line_numbers_lines)

text \<open>
  C2. A line on which the pattern matches at the start is rebuilt from the three groups
  of the match, so whatever follows the comma on that line is lost: the rest of the line
  is not left intact. Here line 2 loses \<open>"name": "Bob"\<close>.
\<close>

theorem embed_line_numbers_drops_rest_of_line:
  \<open>embed_line_numbers ''{\<newline>  "@type": "Person", "name": "Bob"\<newline>}''
   = ''{\<newline>  "@type": "Person_LINE_2",\<newline>}''\<close>
  by code_simp

text \<open>Where the declaration is the whole line, only the suffix is added.\<close>

lemma embed_line_numbers_whole_line:
  \<open>embed_line_numbers ''{\<newline>  "@type": "Person",\<newline>  "name": "Bob"\<newline>}''
   = ''{\<newline>  "@type": "Person_LINE_2",\<newline>  "name": "Bob"\<newline>}''\<close>
  by code_simp

text \<open>The pattern skips blanks only: a line indented with a tab is left as it is.\<close>

lemma embed_line_numbers_tab:
  \<open>embed_line_numbers (CHR 0x09 # ''"@type": "Person",'') = CHR 0x09 # ''"@type": "Person",''\<close>
  by code_simp

end
